theory Spec2Isabelle
  imports Complex_Main
begin

section \<open>Affine groups: the data model\<close>

text \<open>
  The embedding follows \<^verbatim>\<open>sage/groups/affine_gps/affine_group.py\<close>. The base ring of
  a group is a type \<open>'a\<close> of class \<open>field\<close> (the rationals, a finite field); its
  arithmetic is the arithmetic of that type. The group \<open>self\<close> is given by its degree
  \<open>d\<close>. A matrix is the list of its rows, a vector the list of its entries.
  Every \<^verbatim>\<open>raise\<close> of the source is an \<open>Inl\<close> value.
\<close>

datatype error =
    TypeError string
  | ValueError string
  | CoercionError
  | AttributeError
  | UnboundLocalError

type_synonym 'a vec = "'a list"

type_synonym 'a mat = "'a list list"

text \<open>What a caller passes for a matrix: the list of the rows, or the flat list of
  the entries, row after row (both forms appear in the examples of the source).\<close>

datatype 'a matrix_input = Rows "'a list list" | Entries "'a list"

record 'a AffineGroupElement =
  parent :: nat
  elt_A :: "'a mat"
  elt_b :: "'a vec"

subsection \<open>The matrix space and the vector space of a group\<close>

text \<open>Modelled from the spec: the matrix-space and vector-space providers
  (\<^verbatim>\<open>MatrixSpace\<close>, \<^verbatim>\<open>FreeModule\<close>) are not among the source files. They supply
  coercion of raw data into the space, the identity matrix, the zero vector, the
  matrix and vector arithmetic, and the invertibility test (the determinant is a unit
  of the ring: in a field, it is not zero).\<close>

fun chop :: "nat \<Rightarrow> nat \<Rightarrow> 'a list \<Rightarrow> 'a list list" where
  "chop 0 w xs = []"
| "chop (Suc n) w xs = take w xs # chop n w (drop w xs)"

definition matrix_space_coerce :: "nat \<Rightarrow> 'a matrix_input \<Rightarrow> error + 'a mat" where
  "matrix_space_coerce d m =
     (case m of
        Rows rs \<Rightarrow>
          if length rs = d \<and> list_all (\<lambda>r. length r = d) rs then Inr rs
          else Inl CoercionError
      | Entries es \<Rightarrow>
          if length es = d * d then Inr (chop d d es) else Inl CoercionError)"

definition vector_space_coerce :: "nat \<Rightarrow> 'a list \<Rightarrow> error + 'a vec" where
  "vector_space_coerce d v = (if length v = d then Inr v else Inl CoercionError)"

definition matrix_space_one :: "nat \<Rightarrow> 'a::{zero,one} mat" where
  "matrix_space_one d =
     map (\<lambda>i. map (\<lambda>j. if i = j then 1 else 0) [0..<d]) [0..<d]"

definition vector_space_zero :: "nat \<Rightarrow> 'a::zero vec" where
  "vector_space_zero d = replicate d 0"

definition dot :: "'a::semiring_0 vec \<Rightarrow> 'a vec \<Rightarrow> 'a" where
  "dot u v = sum_list (map2 (*) u v)"

definition ncols :: "'a mat \<Rightarrow> nat" where
  "ncols M = (case M of [] \<Rightarrow> 0 | r # _ \<Rightarrow> length r)"

definition col :: "'a mat \<Rightarrow> nat \<Rightarrow> 'a vec" where
  "col M j = map (\<lambda>r. r ! j) M"

definition mat_mul :: "'a::semiring_0 mat \<Rightarrow> 'a mat \<Rightarrow> 'a mat" where
  "mat_mul M N = map (\<lambda>r. map (\<lambda>j. dot r (col N j)) [0..<ncols N]) M"

definition mat_vec :: "'a::semiring_0 mat \<Rightarrow> 'a vec \<Rightarrow> 'a vec" where
  "mat_vec M x = map (\<lambda>r. dot r x) M"

definition mat_sub :: "'a::minus mat \<Rightarrow> 'a mat \<Rightarrow> 'a mat" where
  "mat_sub M N = map2 (map2 (-)) M N"

definition mat_scale :: "'a::times mat \<Rightarrow> 'a \<Rightarrow> 'a mat" where
  "mat_scale M c = map (map (\<lambda>x. x * c)) M"

definition vec_add :: "'a::plus vec \<Rightarrow> 'a vec \<Rightarrow> 'a vec" where
  "vec_add u v = map2 (+) u v"

definition column :: "'a vec \<Rightarrow> 'a mat" where
  "column v = map (\<lambda>x. [x]) v"

definition row :: "'a vec \<Rightarrow> 'a mat" where
  "row v = [v]"

definition drop_col :: "nat \<Rightarrow> 'a list \<Rightarrow> 'a list" where
  "drop_col j r = take j r @ drop (Suc j) r"

text \<open>The determinant, expanded along the first row; the empty matrix has
  determinant 1.\<close>

function det :: "'a::comm_ring_1 mat \<Rightarrow> 'a" where
  "det [] = 1"
| "det (r # rs) =
     (\<Sum>j\<leftarrow>[0..<length r]. (- 1) ^ j * r ! j * det (map (drop_col j) rs))"
  by pat_completeness auto
termination
  by (relation "measure length") auto

definition is_invertible :: "'a::field mat \<Rightarrow> bool" where
  "is_invertible M = (det M \<noteq> 0)"

subsection \<open>The element constructor\<close>

text \<open>\<^verbatim>\<open>AffineGroup._element_constructor_check\<close>: raises \<^verbatim>\<open>TypeError\<close> unless
  \<open>A\<close> is invertible.\<close>

definition element_constructor_check :: "'a::field mat \<Rightarrow> 'a vec \<Rightarrow> error + unit" where
  "element_constructor_check A b =
     (if \<not> is_invertible A then Inl (TypeError ''A must be invertible'') else Inr ())"

text \<open>Modelled from the spec: the constructor of \<^verbatim>\<open>AffineGroupElement\<close>
  (\<^verbatim>\<open>group_element.py\<close>) is not among the source files. With \<^verbatim>\<open>check=True\<close>
  it calls the membership check of the parent before it stores \<open>A\<close> and \<open>b\<close>; with
  \<^verbatim>\<open>check=False\<close> it stores them as they are. Every call of the source passes
  \<^verbatim>\<open>convert=False\<close>.\<close>

definition element_class ::
  "nat \<Rightarrow> 'a::field mat \<Rightarrow> 'a vec \<Rightarrow> bool \<Rightarrow> error + 'a AffineGroupElement" where
  "element_class d A b check =
     (if check then
        (case element_constructor_check A b of
           Inl e \<Rightarrow> Inl e
         | Inr _ \<Rightarrow> Inr \<lparr>parent = d, elt_A = A, elt_b = b\<rparr>)
      else Inr \<lparr>parent = d, elt_A = A, elt_b = b\<rparr>)"

subsection \<open>The special elements\<close>

text \<open>\<^verbatim>\<open>AffineGroup.linear\<close> (\<open>linear\<close> is a constant of the library already).\<close>

definition linear_elt :: "nat \<Rightarrow> 'a::field matrix_input \<Rightarrow> error + 'a AffineGroupElement" where
  "linear_elt d Ain =
     (case matrix_space_coerce d Ain of
        Inl e \<Rightarrow> Inl e
      | Inr A \<Rightarrow> element_class d A (vector_space_zero d) True)"

text \<open>\<^verbatim>\<open>AffineGroup.translation\<close>\<close>

definition translation :: "nat \<Rightarrow> 'a::field list \<Rightarrow> error + 'a AffineGroupElement" where
  "translation d bin =
     (case vector_space_coerce d bin of
        Inl e \<Rightarrow> Inl e
      | Inr b \<Rightarrow> element_class d (matrix_space_one d) b False)"

text \<open>\<^verbatim>\<open>AffineGroup.reflection\<close>: the division raises \<^verbatim>\<open>ZeroDivisionError\<close> when the
  sum of the squares is zero, which the source turns into a \<^verbatim>\<open>ValueError\<close>.\<close>

definition reflection :: "nat \<Rightarrow> 'a::field list \<Rightarrow> error + 'a AffineGroupElement" where
  "reflection d vin =
     (case vector_space_coerce d vin of
        Inl e \<Rightarrow> Inl e
      | Inr v \<Rightarrow>
          (let s = sum_list (map (\<lambda>vi. vi ^ 2) v) in
           if s = 0 then Inl (ValueError ''v has norm zero'')
           else
             (let two_norm2inv = 2 / s;
                  A = mat_sub (matrix_space_one d)
                        (mat_mul (column v) (mat_scale (row v) two_norm2inv))
              in element_class d A (vector_space_zero d) True)))"

text \<open>\<^verbatim>\<open>AffineGroup.random_element\<close> and \<^verbatim>\<open>AffineGroup._an_element_\<close>. The
  random generator of the matrix space is a parameter \<open>draws\<close>: the matrix that the
  \<open>i\<close>-th call of \<^verbatim>\<open>random_element()\<close> or \<^verbatim>\<open>randomize()\<close> yields. The loop
  \<^verbatim>\<open>while not A.is_invertible(): A.randomize()\<close> need not end: not returning is
  the value \<open>None\<close>.\<close>

partial_function (option) resample ::
  "(nat \<Rightarrow> 'a::field mat) \<Rightarrow> nat \<Rightarrow> 'a mat \<Rightarrow> 'a mat option" where
  "resample draws i A =
     (if \<not> is_invertible A then resample draws (Suc i) (draws i) else Some A)"

definition random_element ::
  "nat \<Rightarrow> (nat \<Rightarrow> 'a::field mat) \<Rightarrow> 'a vec \<Rightarrow> (error + 'a AffineGroupElement) option" where
  "random_element d draws b_random =
     (case resample draws 1 (draws 0) of
        None \<Rightarrow> None
      | Some A \<Rightarrow> Some (element_class d A b_random False))"

definition an_element ::
  "nat \<Rightarrow> 'a::field mat \<Rightarrow> (nat \<Rightarrow> 'a mat) \<Rightarrow> 'a vec \<Rightarrow> (error + 'a AffineGroupElement) option" where
  "an_element d A_an draws b_an =
     (case resample draws 0 A_an of
        None \<Rightarrow> None
      | Some A \<Rightarrow> Some (element_class d A b_an False))"

subsection \<open>The group structure of the elements\<close>

text \<open>Modelled from the spec: multiplication, the identity and the action of an
  element (\<^verbatim>\<open>group_element.py\<close> and the group framework) are not among the source
  files. The element \<open>(A, b)\<close> is the map \<open>x \<mapsto> A x + b\<close>; the product is the
  composition of the maps, which is the product of the block matrices
  \<open>[[A, b], [0, 1]]\<close>; the identity is \<open>(1, 0)\<close>.\<close>

definition act :: "'a::field AffineGroupElement \<Rightarrow> 'a vec \<Rightarrow> 'a vec" where
  "act g x = vec_add (mat_vec (elt_A g) x) (elt_b g)"

definition mul :: "'a::field AffineGroupElement \<Rightarrow> 'a AffineGroupElement \<Rightarrow> 'a AffineGroupElement" where
  "mul g h =
     \<lparr>parent = parent g,
      elt_A = mat_mul (elt_A g) (elt_A h),
      elt_b = vec_add (elt_b g) (mat_vec (elt_A g) (elt_b h))\<rparr>"

definition identity :: "nat \<Rightarrow> 'a::field AffineGroupElement" where
  "identity d = \<lparr>parent = d, elt_A = matrix_space_one d, elt_b = vector_space_zero d\<rparr>"

subsection \<open>The Householder matrix, as the spec writes it\<close>

definition mat_of :: "nat \<Rightarrow> (nat \<Rightarrow> nat \<Rightarrow> 'a) \<Rightarrow> 'a mat" where
  "mat_of d f = map (\<lambda>i. map (\<lambda>j. f i j) [0..<d]) [0..<d]"

text \<open>\<open>A = I - 2 (v v\<^sup>t) / (v \<cdot> v)\<close>, entry by entry.\<close>

definition householder :: "nat \<Rightarrow> 'a::field vec \<Rightarrow> 'a mat" where
  "householder d v =
     mat_of d (\<lambda>i j. (if i = j then 1 else 0) - 2 * (v ! i * v ! j) / dot v v)"

text \<open>Unit vectors and scalar multiples of vectors, for the properties of the
  determinant.\<close>

definition unit_vec :: "nat \<Rightarrow> nat \<Rightarrow> 'a::{zero,one} vec" where
  "unit_vec n i = map (\<lambda>j. if i = j then 1 else 0) [0..<n]"

definition vec_scale :: "'a::times \<Rightarrow> 'a vec \<Rightarrow> 'a vec" where
  "vec_scale c v = map (\<lambda>x. c * x) v"

subsection \<open>The field with two elements\<close>

datatype gf2 = Zero2 | One2

instantiation gf2 :: field
begin

definition zero_gf2 :: gf2 where "zero_gf2 = Zero2"

definition one_gf2 :: gf2 where "one_gf2 = One2"

definition plus_gf2 :: "gf2 \<Rightarrow> gf2 \<Rightarrow> gf2" where
  "plus_gf2 x y = (if x = y then Zero2 else One2)"

definition minus_gf2 :: "gf2 \<Rightarrow> gf2 \<Rightarrow> gf2" where
  "minus_gf2 x y = (if x = y then Zero2 else One2)"

definition uminus_gf2 :: "gf2 \<Rightarrow> gf2" where
  "uminus_gf2 x = x"

definition times_gf2 :: "gf2 \<Rightarrow> gf2 \<Rightarrow> gf2" where
  "times_gf2 x y = (case x of Zero2 \<Rightarrow> Zero2 | One2 \<Rightarrow> y)"

definition inverse_gf2 :: "gf2 \<Rightarrow> gf2" where
  "inverse_gf2 x = x"

definition divide_gf2 :: "gf2 \<Rightarrow> gf2 \<Rightarrow> gf2" where
  "divide_gf2 x y = (case x of Zero2 \<Rightarrow> Zero2 | One2 \<Rightarrow> y)"

instance
proof
  fix a b c :: gf2
  show "a + b + c = a + (b + c)"
    by (cases a; cases b; cases c) (simp_all add: plus_gf2_def)
  show "a + b = b + a"
    by (cases a; cases b) (simp_all add: plus_gf2_def)
  show "0 + a = a"
    by (cases a) (simp_all add: plus_gf2_def zero_gf2_def)
  show "- a + a = 0"
    by (simp add: plus_gf2_def zero_gf2_def uminus_gf2_def)
  show "a - b = a + - b"
    by (simp add: plus_gf2_def minus_gf2_def uminus_gf2_def)
  show "a * b * c = a * (b * c)"
    by (cases a; cases b; cases c) (simp_all add: times_gf2_def)
  show "a * b = b * a"
    by (cases a; cases b) (simp_all add: times_gf2_def)
  show "1 * a = a"
    by (simp add: times_gf2_def one_gf2_def)
  show "(a + b) * c = a * c + b * c"
    by (cases a; cases b; cases c) (simp_all add: times_gf2_def plus_gf2_def)
  show "(0::gf2) \<noteq> 1"
    by (simp add: zero_gf2_def one_gf2_def)
  show "a \<noteq> 0 \<Longrightarrow> inverse a * a = 1"
    by (cases a) (simp_all add: times_gf2_def inverse_gf2_def zero_gf2_def one_gf2_def)
  show "a div b = a * inverse b"
    by (simp add: times_gf2_def inverse_gf2_def divide_gf2_def)
  show "inverse (0::gf2) = 0"
    by (simp add: inverse_gf2_def)
qed

end

section \<open>Pickling of classes made by a metaclass\<close>

text \<open>
  The embedding follows \<^verbatim>\<open>sage/misc/test_class_pickling.py\<close>. A class object is a value
  with its identity: \<open>Plain i\<close> is a class whose type is \<^verbatim>\<open>type\<close> (as \<^verbatim>\<open>alpha\<close> and
  \<^verbatim>\<open>bar\<close>), \<open>Meta i name bases reduce_args\<close> a class whose type is \<^verbatim>\<open>Metaclass\<close>,
  with its attribute \<^verbatim>\<open>reduce_args\<close> (\<open>None\<close> while it is not set; that a class
  inherits the attribute from a base is not modelled: \<^verbatim>\<open>metaclass\<close> sets it on every
  class it makes). The interpreter
  state holds the next fresh identity and the lines printed so far. Python's \<^verbatim>\<open>is\<close>
  compares identities. Creating the class itself (\<^verbatim>\<open>type.__new__\<close>) is taken to succeed.
\<close>

record pystate =
  next_id :: nat
  out :: "string list"

datatype pyclass =
    Plain nat
  | Meta nat string "pyclass list" "(string \<times> pyclass list) option"

datatype pytype = Type_type | Type_Metaclass

text \<open>What the pickler writes for a class: a reference to a global (a class that is
  not of the metaclass), or the value of the reduce hook, \<^verbatim>\<open>(metaclass, (name, bases))\<close>,
  with the bases pickled in turn.\<close>

datatype pickled = Global pyclass | Reduce string "pickled list"

fun oid :: "pyclass \<Rightarrow> nat" where
  "oid (Plain i) = i"
| "oid (Meta i n bs ra) = i"

fun py_type :: "pyclass \<Rightarrow> pytype" where
  "py_type (Plain i) = Type_type"
| "py_type (Meta i n bs ra) = Type_Metaclass"

fun reduce_args :: "pyclass \<Rightarrow> (string \<times> pyclass list) option" where
  "reduce_args (Plain i) = None"
| "reduce_args (Meta i n bs ra) = ra"


definition py_is :: "pyclass \<Rightarrow> pyclass \<Rightarrow> bool" where
  "py_is x y = (oid x = oid y)"

definition py_print :: "string \<Rightarrow> pystate \<Rightarrow> pystate" where
  "py_print line st = st\<lparr>out := out st @ [line]\<rparr>"



text \<open>\<^verbatim>\<open>Metaclass.__eq__\<close>, and Python's \<^verbatim>\<open>==\<close> on classes and on tuples of
  classes, which it calls through \<^verbatim>\<open>self.reduce_args == other.reduce_args\<close>. A tuple
  comparison skips \<^verbatim>\<open>==\<close> for items that are the same object and stops at the first
  items that differ. For \<open>x == y\<close> with \<open>x\<close> a plain class and \<open>y\<close> of the metaclass,
  the method of the metaclass is tried first (it is the subclass), prints, and answers
  \<open>False\<close>.\<close>

fun Metaclass_eq :: "pyclass \<Rightarrow> pyclass \<Rightarrow> pystate \<Rightarrow> (error + bool) \<times> pystate"
  and class_eq :: "pyclass \<Rightarrow> pyclass \<Rightarrow> pystate \<Rightarrow> (error + bool) \<times> pystate"
  and bases_eq :: "pyclass list \<Rightarrow> pyclass list \<Rightarrow> pystate \<Rightarrow> (error + bool) \<times> pystate"
where
  "Metaclass_eq (Plain i) other st =
     (let st1 = py_print ''calling __eq__ defined in Metaclass'' st in
      if py_type (Plain i) \<noteq> py_type other then (Inr False, st1)
      else (Inl AttributeError, st1))"
| "Metaclass_eq (Meta i n bs ra) other st =
     (let st1 = py_print ''calling __eq__ defined in Metaclass'' st in
      if py_type (Meta i n bs ra) \<noteq> py_type other then (Inr False, st1)
      else
        (case ra of
           None \<Rightarrow> (Inl AttributeError, st1)
         | Some (name1, bases1) \<Rightarrow>
             (case reduce_args other of
                None \<Rightarrow> (Inl AttributeError, st1)
              | Some (name2, bases2) \<Rightarrow>
                  if name1 \<noteq> name2 then (Inr False, st1)
                  else bases_eq bases1 bases2 st1)))"
| "class_eq (Meta i n bs ra) y st = Metaclass_eq (Meta i n bs ra) y st"
| "class_eq (Plain i) (Meta j m cs rb) st =
     (Inr False, py_print ''calling __eq__ defined in Metaclass'' st)"
| "class_eq (Plain i) (Plain j) st = (Inr (i = j), st)"
| "bases_eq [] [] st = (Inr True, st)"
| "bases_eq [] (y # ys) st = (Inr False, st)"
| "bases_eq (x # xs) [] st = (Inr False, st)"
| "bases_eq (x # xs) (y # ys) st =
     (if py_is x y then bases_eq xs ys st
      else
        (case class_eq x y st of
           (Inl e, st1) \<Rightarrow> (Inl e, st1)
         | (Inr eq, st1) \<Rightarrow> if eq then bases_eq xs ys st1 else (Inr False, st1)))"

text \<open>\<^verbatim>\<open>Metaclass.__reduce__\<close>: the function to call is always \<^verbatim>\<open>metaclass\<close>; the
  value here is the argument tuple.\<close>

fun Metaclass_reduce :: "pyclass \<Rightarrow> pystate \<Rightarrow> (error + string \<times> pyclass list) \<times> pystate" where
  "Metaclass_reduce self st =
     (let st1 = py_print ''reducing a class'' st in
      case reduce_args self of
        None \<Rightarrow> (Inl AttributeError, st1)
      | Some args \<Rightarrow> (Inr args, st1))"

text \<open>\<^verbatim>\<open>cPickle.dumps\<close> and \<^verbatim>\<open>cPickle.loads\<close> on a class, with the hook that
  \<^verbatim>\<open>copyreg.pickle(Metaclass, Metaclass.__reduce__)\<close> registers: a class of the
  metaclass is written through the hook (its body is repeated in \<open>dumps\<close>, see
  \<open>dumps_calls_reduce\<close>), any other class by reference; loading applies \<^verbatim>\<open>metaclass\<close>
  to the loaded arguments. The memo table of the pickler is left out: it decides which
  rebuilt bases are shared, not what they are.\<close>

fun dumps :: "pyclass \<Rightarrow> pystate \<Rightarrow> (error + pickled) \<times> pystate"
  and dumps_list :: "pyclass list \<Rightarrow> pystate \<Rightarrow> (error + pickled list) \<times> pystate"
where
  "dumps (Plain i) st = (Inr (Global (Plain i)), st)"
| "dumps (Meta i n bs ra) st =
     (let st1 = py_print ''reducing a class'' st in
      case ra of
        None \<Rightarrow> (Inl AttributeError, st1)
      | Some (name, bases) \<Rightarrow>
          (case dumps_list bases st1 of
             (Inl e, st2) \<Rightarrow> (Inl e, st2)
           | (Inr ps, st2) \<Rightarrow> (Inr (Reduce name ps), st2)))"
| "dumps_list [] st = (Inr [], st)"
| "dumps_list (c # cs) st =
     (case dumps c st of
        (Inl e, st1) \<Rightarrow> (Inl e, st1)
      | (Inr p, st1) \<Rightarrow>
          (case dumps_list cs st1 of
             (Inl e, st2) \<Rightarrow> (Inl e, st2)
           | (Inr ps, st2) \<Rightarrow> (Inr (p # ps), st2)))"






section \<open>Construction of affine groups\<close>

text \<open>
  \<^verbatim>\<open>AffineGroup.__classcall__\<close> and \<^verbatim>\<open>AffineGroup.__init__\<close>. The arguments of a
  call are Python values: a Sage integer, a ring, an affine group that exists already
  (a reference to the instance), or another object, given by what its methods
  \<^verbatim>\<open>dimension_relative()\<close>, \<^verbatim>\<open>dimension()\<close> and \<^verbatim>\<open>base_ring()\<close> return (\<open>None\<close>:
  the object has no such method).
\<close>

datatype ring = RationalField | IntegerRing | GF nat string

datatype pyval =
    Integer int
  | Ring ring
  | GroupRef nat
  | Obj "pyval option" "pyval option" "pyval option"

record AffineGroup =
  degree :: pyval
  base_ring :: ring

text \<open>The state of the process: the instances made so far (an instance is referred to
  by its position) and the cache of the unique representation.\<close>

record process =
  instances :: "AffineGroup list"
  cache :: "pyval \<times> pyval \<rightharpoonup> nat"

definition dimension_relative :: "pyval \<Rightarrow> error + pyval" where
  "dimension_relative V =
     (case V of Obj (Some n) _ _ \<Rightarrow> Inr n | _ \<Rightarrow> Inl AttributeError)"

definition dimension :: "pyval \<Rightarrow> error + pyval" where
  "dimension V =
     (case V of Obj _ (Some n) _ \<Rightarrow> Inr n | _ \<Rightarrow> Inl AttributeError)"

definition base_ring_of :: "pyval \<Rightarrow> error + pyval" where
  "base_ring_of V =
     (case V of Obj _ _ (Some R) \<Rightarrow> Inr R | _ \<Rightarrow> Inl AttributeError)"

definition is_Integer :: "pyval \<Rightarrow> bool" where
  "is_Integer x = (case x of Integer _ \<Rightarrow> True | _ \<Rightarrow> False)"

text \<open>Modelled from the spec: the ring provider (\<^verbatim>\<open>FiniteField\<close>) is not among the
  source files. It turns a prime power into the finite field of that order with the
  given generator name, and fails on any other order. An order \<open>q > 1\<close> is a prime
  power when its least factor above 1 divides every factor of \<open>q\<close> above 1.\<close>

definition is_prime_power :: "int \<Rightarrow> bool" where
  "is_prime_power q =
     (1 < q \<and>
      (let ds = filter (\<lambda>d. d dvd nat q) [2..<Suc (nat q)]
       in list_all (\<lambda>d. hd ds dvd d) ds))"

definition FiniteField :: "pyval \<Rightarrow> string \<Rightarrow> error + pyval" where
  "FiniteField order name =
     (case order of
        Integer q \<Rightarrow>
          if is_prime_power q then Inr (Ring (GF (nat q) name))
          else Inl (ValueError ''the order of a finite field must be a prime power'')
      | _ \<Rightarrow> Inl (TypeError ''the order of a finite field must be an integer''))"

text \<open>Modelled from the spec: \<^verbatim>\<open>Group.__init__\<close> is not among the source files. It
  fails with a type error when the base is not a ring.\<close>

definition Group_init :: "pyval \<Rightarrow> error + ring" where
  "Group_init base = (case base of Ring R \<Rightarrow> Inr R | _ \<Rightarrow> Inl (TypeError ''base must be a ring''))"

text \<open>\<^verbatim>\<open>AffineGroup.__init__\<close>: the degree is stored as it is given.\<close>

definition AffineGroup_init :: "pyval \<Rightarrow> pyval \<Rightarrow> error + AffineGroup" where
  "AffineGroup_init degree_arg ring_arg =
     (case Group_init ring_arg of
        Inl e \<Rightarrow> Inl e
      | Inr R \<Rightarrow> Inr \<lparr>degree = degree_arg, base_ring = R\<rparr>)"

text \<open>Modelled from the spec: the unique-instance cache (\<^verbatim>\<open>UniqueRepresentation\<close>)
  is not among the source files. It is keyed by the constructor arguments: a key that
  is present gives the instance built before; otherwise the instance is built,
  entered and returned.\<close>

definition UniqueRepresentation_classcall ::
  "pyval \<Rightarrow> pyval \<Rightarrow> process \<Rightarrow> (error + pyval) \<times> process" where
  "UniqueRepresentation_classcall degree_arg ring_arg st =
     (case cache st (degree_arg, ring_arg) of
        Some r \<Rightarrow> (Inr (GroupRef r), st)
      | None \<Rightarrow>
          (case AffineGroup_init degree_arg ring_arg of
             Inl e \<Rightarrow> (Inl e, st)
           | Inr G \<Rightarrow>
               (Inr (GroupRef (length (instances st))),
                st\<lparr>instances := instances st @ [G],
                   cache := (cache st)((degree_arg, ring_arg) \<mapsto> length (instances st))\<rparr>)))"

text \<open>The part of \<^verbatim>\<open>__classcall__\<close> before the call of the base class: the outcome
  is an early return of the argument, an error, or the pair \<open>(degree, ring)\<close>.\<close>

datatype normalized = Return pyval | Raise error | Params pyval pyval

definition normalize_args :: "pyval list \<Rightarrow> (string \<rightharpoonup> string) \<Rightarrow> normalized" where
  "normalize_args args kwds =
     (case args of
        [V] \<Rightarrow>
          (case V of
             GroupRef r \<Rightarrow> Return V
           | _ \<Rightarrow>
               (case (case dimension_relative V of Inl e \<Rightarrow> dimension V | Inr n \<Rightarrow> Inr n) of
                  Inl e \<Rightarrow> Raise e
                | Inr degree_arg \<Rightarrow>
                    (case base_ring_of V of
                       Inl e \<Rightarrow> Raise e
                     | Inr ring_arg \<Rightarrow> Params degree_arg ring_arg)))
      | [degree_arg, ring_arg] \<Rightarrow>
          if is_Integer ring_arg then
            (let var = (case kwds ''var'' of None \<Rightarrow> ''a'' | Some v \<Rightarrow> v) in
             case FiniteField ring_arg var of
               Inl e \<Rightarrow> Raise e
             | Inr R \<Rightarrow> Params degree_arg R)
          else Params degree_arg ring_arg
      | _ \<Rightarrow> Raise UnboundLocalError)"

text \<open>\<^verbatim>\<open>AffineGroup.__classcall__\<close>\<close>

definition AffineGroup_classcall ::
  "pyval list \<Rightarrow> (string \<rightharpoonup> string) \<Rightarrow> process \<Rightarrow> (error + pyval) \<times> process" where
  "AffineGroup_classcall args kwds st =
     (case normalize_args args kwds of
        Return V \<Rightarrow> (Inr V, st)
      | Raise e \<Rightarrow> (Inl e, st)
      | Params degree_arg ring_arg \<Rightarrow> UniqueRepresentation_classcall degree_arg ring_arg st)"

definition start :: process where
  "start = \<lparr>instances = [], cache = Map.empty\<rparr>"

text \<open>The states a process can be in: the start, and what a call makes of a state it
  can be in.\<close>

inductive calls :: "process \<Rightarrow> process \<Rightarrow> bool" where
  calls_refl: "calls st st"
| calls_step: "calls st st1 \<Longrightarrow> AffineGroup_classcall args kwds st1 = (res, st2) \<Longrightarrow> calls st st2"

definition reachable :: "process \<Rightarrow> bool" where
  "reachable st = calls start st"



definition key_of :: "AffineGroup \<Rightarrow> pyval \<times> pyval" where
  "key_of G = (degree G, Ring (base_ring G))"

text \<open>The invariant of the cache: a key leads to an instance with these parameters,
  and every instance is found under its parameters.\<close>

definition cache_inv :: "process \<Rightarrow> bool" where
  "cache_inv st =
     ((\<forall>k r. cache st k = Some r \<longrightarrow> r < length (instances st) \<and> key_of (instances st ! r) = k) \<and>
      (\<forall>r. r < length (instances st) \<longrightarrow> cache st (key_of (instances st ! r)) = Some r))"

section \<open>Properties of the matrix operations\<close>

lemma map2_map_same: "map2 f (map g xs) (map h xs) = map (\<lambda>x. f (g x) (h x)) xs"
  by (induction xs) auto

lemma map2_same: "map2 f xs xs = map (\<lambda>x. f x x) xs"
  by (induction xs) auto

lemma one_mat_of: "matrix_space_one d = mat_of d (\<lambda>i j. if i = j then 1 else 0)"
  by (simp add: matrix_space_one_def mat_of_def)

lemma mat_sub_mat_of: "mat_sub (mat_of d f) (mat_of d g) = mat_of d (\<lambda>i j. f i j - g i j)"
  by (simp add: mat_sub_def mat_of_def map2_map_same)

lemma ncols_mat_of: "ncols (mat_of d f) = d"
  by (cases d) (simp_all add: ncols_def mat_of_def upt_conv_Cons del: upt_Suc)

lemma col_mat_of: "j < d \<Longrightarrow> col (mat_of d f) j = map (\<lambda>k. f k j) [0..<d]"
  by (simp add: col_def mat_of_def)

lemma dot_maps: "dot (map f xs) (map g xs) = (\<Sum>k\<leftarrow>xs. f k * g k)"
  by (simp add: dot_def map2_map_same)



lemma mat_mul_mat_of:
  "mat_mul (mat_of d f) (mat_of d g) = mat_of d (\<lambda>i j. \<Sum>k\<leftarrow>[0..<d]. f i k * g k j)"
proof -
  have "map (\<lambda>j. dot (map (f i) [0..<d]) (col (mat_of d g) j)) [0..<d]
        = map (\<lambda>j. \<Sum>k\<leftarrow>[0..<d]. f i k * g k j) [0..<d]" for i
    by (rule map_cong[OF refl]) (simp add: col_mat_of dot_maps)
  then show ?thesis
    unfolding mat_mul_def ncols_mat_of
    unfolding mat_of_def by simp
qed

lemma mat_of_cong: "(\<And>i j. i < d \<Longrightarrow> j < d \<Longrightarrow> f i j = g i j) \<Longrightarrow> mat_of d f = mat_of d g"
  by (simp add: mat_of_def)

lemma column_mat: "length v = d \<Longrightarrow> column v = map (\<lambda>i. [v ! i]) [0..<d]"
proof -
  assume len: "length v = d"
  have "column v = column (map (\<lambda>i. v ! i) [0..<length v])"
    by (simp only: map_nth)
  also have "\<dots> = map (\<lambda>i. [v ! i]) [0..<length v]"
    by (simp only: column_def map_map o_def)
  finally show ?thesis
    using len by simp
qed

lemma outer_mat_of:
  assumes len: "length v = d"
  shows "mat_mul (column v) (mat_scale (row v) c) = mat_of d (\<lambda>i j. v ! i * (v ! j * c))"
proof -
  have nc: "ncols (mat_scale (row v) c) = d"
    using len by (simp add: ncols_def mat_scale_def row_def)
  have cl: "col (mat_scale (row v) c) j = [v ! j * c]" if "j < d" for j
    using len that by (simp add: col_def mat_scale_def row_def)
  have "map (\<lambda>j. dot [v ! i] (col (mat_scale (row v) c) j)) [0..<d]
        = map (\<lambda>j. v ! i * (v ! j * c)) [0..<d]" for i
    by (rule map_cong[OF refl]) (simp add: cl dot_def)
  then show ?thesis
    unfolding mat_mul_def nc column_mat[OF len]
    unfolding mat_of_def by simp
qed

lemma sum_squares_dot: "sum_list (map (\<lambda>vi. vi ^ 2) v) = dot v (v::'a::comm_semiring_1 list)"
  by (simp add: dot_def map2_same power2_eq_square)

lemma reflection_matrix:
  assumes "length v = d" "dot v v \<noteq> 0"
  shows "mat_sub (matrix_space_one d) (mat_mul (column v) (mat_scale (row v) (2 / dot v v)))
         = householder d (v::'a::field list)"
  unfolding householder_def outer_mat_of[OF assms(1)] one_mat_of mat_sub_mat_of
  by (rule mat_of_cong) (simp add: field_simps)


lemma dot_nth_sum:
  assumes "length v = d"
  shows "dot v v = (\<Sum>k<d. v ! k * v ! k)"
proof -
  have "dot v v = dot (map (\<lambda>i. v ! i) [0..<length v]) (map (\<lambda>i. v ! i) [0..<length v])"
    by (simp only: map_nth)
  also have "\<dots> = (\<Sum>k\<leftarrow>[0..<length v]. v ! k * v ! k)"
    by (rule dot_maps)
  also have "\<dots> = (\<Sum>k<d. v ! k * v ! k)"
    using assms by (simp add: interv_sum_list_conv_sum_set_nat atLeast0LessThan)
  finally show ?thesis .
qed

lemma householder_entry_sum:
  fixes v :: "'a::field list"
  assumes s: "(\<Sum>k<d. v ! k * v ! k) = s" "s \<noteq> 0" and i: "i < d" and j: "j < d"
  shows "(\<Sum>k<d. ((if i = k then 1 else 0) - 2 * (v ! i * v ! k) / s) *
                   ((if k = j then 1 else 0) - 2 * (v ! k * v ! j) / s))
         = (if i = j then 1 else 0)"
proof -
  define c where "c = 2 / s"
  have cs: "c * s = 2"
    using s(2) by (simp add: c_def)
  have split: "((if i = k then 1 else 0) - 2 * (v ! i * v ! k) / s) *
               ((if k = j then 1 else 0) - 2 * (v ! k * v ! j) / s)
             = (if k = i then (if k = j then 1 else 0) else 0)
               - (if k = i then c * (v ! k * v ! j) else 0)
               - (if k = j then c * (v ! i * v ! k) else 0)
               + c * c * (v ! i * v ! j) * (v ! k * v ! k)" for k
    by (simp add: c_def algebra_simps)
  have "(\<Sum>k<d. ((if i = k then 1 else 0) - 2 * (v ! i * v ! k) / s) *
                   ((if k = j then 1 else 0) - 2 * (v ! k * v ! j) / s))
        = (\<Sum>k<d. if k = i then (if k = j then 1 else 0) else 0)
          - (\<Sum>k<d. if k = i then c * (v ! k * v ! j) else 0)
          - (\<Sum>k<d. if k = j then c * (v ! i * v ! k) else 0)
          + c * c * (v ! i * v ! j) * (\<Sum>k<d. v ! k * v ! k)"
    unfolding split by (simp add: sum.distrib sum_subtractf sum_distrib_left)
  also have "\<dots> = (if i = j then 1 else 0) - c * (v ! i * v ! j) - c * (v ! i * v ! j)
                   + c * c * (v ! i * v ! j) * s"
    using i j by (simp add: s(1))
  also have "\<dots> = (if i = j then 1 else 0) - 2 * (c * (v ! i * v ! j))
                   + (c * s) * (c * (v ! i * v ! j))"
    by (simp add: algebra_simps)
  also have "\<dots> = (if i = j then 1 else 0)"
    unfolding cs by simp
  finally show ?thesis .
qed

lemma householder_involution:
  fixes v :: "'a::field list"
  assumes len: "length v = d" and nz: "dot v v \<noteq> 0"
  shows "mat_mul (householder d v) (householder d v) = matrix_space_one d"
  unfolding householder_def mat_mul_mat_of one_mat_of
proof (rule mat_of_cong)
  fix i j assume "i < d" "j < d"
  then show "(\<Sum>k\<leftarrow>[0..<d].
            ((if i = k then 1 else 0) - 2 * (v ! i * v ! k) / dot v v) *
            ((if k = j then 1 else 0) - 2 * (v ! k * v ! j) / dot v v)) =
        (if i = j then 1 else 0)"
    using householder_entry_sum[OF dot_nth_sum[OF len, symmetric] nz, of i j]
    by (simp add: interv_sum_list_conv_sum_set_nat atLeast0LessThan)
qed


lemma sum_list_delta_left:
  "i < d \<Longrightarrow> (\<Sum>k\<leftarrow>[0..<d]. (if i = k then 1 else 0) * f k) = (f i :: 'a::semiring_1)"
  by (simp add: interv_sum_list_conv_sum_set_nat atLeast0LessThan if_distrib[of "\<lambda>x. x * _"] cong: if_cong)

lemma one_mul_one:
  "mat_mul (matrix_space_one d) (matrix_space_one d) = (matrix_space_one d :: 'a::semiring_1 mat)"
  unfolding one_mat_of mat_mul_mat_of
  by (rule mat_of_cong) (simp add: sum_list_delta_left)

lemma mat_vec_one:
  assumes "length x = d"
  shows "mat_vec (matrix_space_one d) x = (x :: 'a::semiring_1 list)"
proof -
  have x: "x = map (\<lambda>k. x ! k) [0..<d]"
    using assms map_nth[of x] by simp
  have "map (\<lambda>i. dot (map (\<lambda>j. if i = j then 1 else 0) [0..<d]) (map (\<lambda>k. x ! k) [0..<d])) [0..<d]
        = map (\<lambda>i. x ! i) [0..<d]"
    by (rule map_cong[OF refl]) (simp add: dot_maps sum_list_delta_left)
  then have "mat_vec (matrix_space_one d) (map (\<lambda>k. x ! k) [0..<d]) = map (\<lambda>i. x ! i) [0..<d]"
    by (simp add: mat_vec_def matrix_space_one_def o_def)
  then show ?thesis
    using x by simp
qed

lemma dot_zero_right: "dot r (replicate n 0) = (0 :: 'a::semiring_0)"
proof -
  have "sum_list (map2 (*) r (replicate n (0::'a))) = 0"
  proof (induction r arbitrary: n)
    case Nil
    then show ?case by simp
  next
    case (Cons a r)
    then show ?case by (cases n) simp_all
  qed
  then show ?thesis
    by (simp add: dot_def)
qed

lemma mat_vec_zero: "mat_vec M (vector_space_zero n) = (vector_space_zero (length M) :: 'a::semiring_0 list)"
  by (simp add: mat_vec_def vector_space_zero_def dot_zero_right map_replicate_const)

lemma vec_add_zero_zero:
  "vec_add (vector_space_zero d) (vector_space_zero d) = (vector_space_zero d :: 'a::monoid_add list)"
  by (simp add: vec_add_def vector_space_zero_def)

lemma vec_add_zero_right:
  "length u = d \<Longrightarrow> vec_add u (vector_space_zero d) = (u :: 'a::monoid_add list)"
  unfolding vec_add_def vector_space_zero_def
  by (induction u arbitrary: d) auto

lemma length_householder: "length (householder d v) = d"
  by (simp add: householder_def mat_of_def)

lemma sum_squares_zero: "sum_list (map (\<lambda>vi. vi ^ 2) (vector_space_zero d :: 'a::field list)) = 0"
  by (simp add: vector_space_zero_def sum_list_replicate)


section \<open>Properties of the element constructors\<close>

lemma reflection_unfold:
  fixes v :: "'a::field list"
  assumes "length v = d" "dot v v \<noteq> 0"
  shows "reflection d v = element_class d (householder d v) (vector_space_zero d) True"
  using assms
  by (simp add: reflection_def vector_space_coerce_def sum_squares_dot Let_def reflection_matrix)

lemma reflection_Inr:
  fixes v :: "'a::field list"
  assumes "reflection d v = Inr g"
  shows "length v = d \<and> dot v v \<noteq> 0 \<and> is_invertible (householder d v)
         \<and> g = \<lparr>parent = d, elt_A = householder d v, elt_b = vector_space_zero d\<rparr>"
proof -
  have len: "length v = d"
    using assms by (auto simp: reflection_def vector_space_coerce_def split: if_splits)
  have nz: "dot v v \<noteq> 0"
    using assms len
    by (auto simp: reflection_def vector_space_coerce_def sum_squares_dot Let_def split: if_splits)
  show ?thesis
    using assms unfolding reflection_unfold[OF len nz]
    by (auto simp: len nz element_class_def element_constructor_check_def split: if_splits)
qed

lemma reflection_value_error:
  fixes v :: "'a::field list"
  assumes "length v = d"
  shows "(reflection d v = Inl (ValueError ''v has norm zero'')) = (sum_list (map (\<lambda>vi. vi ^ 2) v) = 0)"
  using assms
  by (auto simp: reflection_def vector_space_coerce_def Let_def element_class_def
      element_constructor_check_def split: if_splits)

lemma gf2_example:
  "reflection 2 [1, 1 :: gf2] = Inl (ValueError ''v has norm zero'')"
  by (simp add: reflection_def vector_space_coerce_def power2_eq_square one_gf2_def zero_gf2_def
      times_gf2_def plus_gf2_def)

lemma resample_invertible: "resample draws i A = Some B \<Longrightarrow> is_invertible B"
  by (erule resample.raw_induct[rotated 1]) (auto split: if_splits)

lemma resample_returns:
  "is_invertible (draws (i + n)) \<Longrightarrow> \<exists>B. resample draws i A = Some B"
proof (induction n arbitrary: i A)
  case 0
  then show ?case
    by (subst resample.simps, subst resample.simps) auto
next
  case (Suc n)
  then have "\<exists>B. resample draws (Suc i) (draws i) = Some B"
    by simp
  then show ?case
    by (subst resample.simps) auto
qed


lemma length_chop: "length (chop n w xs) = n"
  by (induction n w xs rule: chop.induct) simp_all

lemma coerce_length: "matrix_space_coerce d Ain = Inr M \<Longrightarrow> length M = d"
  by (auto simp: matrix_space_coerce_def length_chop split: matrix_input.splits if_splits)

lemma length_mat_vec: "length (mat_vec M x) = length M"
  by (simp add: mat_vec_def)

lemma linear_unfold:
  "matrix_space_coerce d Ain = Inr M \<Longrightarrow>
   linear_elt d Ain =
     (if is_invertible M then Inr \<lparr>parent = d, elt_A = M, elt_b = vector_space_zero d\<rparr>
      else Inl (TypeError ''A must be invertible''))"
  by (simp add: linear_elt_def element_class_def element_constructor_check_def)

text \<open>C7: the reflection at the zero vector raises the value error; no element is
  built.\<close>

theorem reflection_zero_vector:
  "reflection d (vector_space_zero d :: 'a::field list) = Inl (ValueError ''v has norm zero'')"
  by (simp add: reflection_def vector_space_coerce_def sum_squares_zero)
    (simp add: vector_space_zero_def)

text \<open>C9: over the field with two elements the vector \<open>(1, 1)\<close> is not the zero
  vector and its reflection raises the value error; in general the value error is
  raised exactly when the sum of the squares of the entries is zero.\<close>

theorem reflection_norm_zero_nonzero_vector:
  "(\<exists>v :: gf2 list. length v = 2 \<and> v \<noteq> vector_space_zero 2 \<and>
        reflection 2 v = Inl (ValueError ''v has norm zero''))
   \<and> (\<forall>d (v :: 'a::field list). length v = d \<longrightarrow>
        (reflection d v = Inl (ValueError ''v has norm zero''))
          = (sum_list (map (\<lambda>vi. vi ^ 2) v) = 0))"
proof (intro conjI allI impI)
  have "[1, 1 :: gf2] \<noteq> vector_space_zero 2"
    by (simp add: vector_space_zero_def numeral_2_eq_2 one_gf2_def zero_gf2_def)
  then show "\<exists>v :: gf2 list. length v = 2 \<and> v \<noteq> vector_space_zero 2 \<and>
        reflection 2 v = Inl (ValueError ''v has norm zero'')"
    using gf2_example by (intro exI[of _ "[1, 1]"]) simp
next
  fix d and v :: "'a list"
  assume "length v = d"
  then show "(reflection d v = Inl (ValueError ''v has norm zero''))
          = (sum_list (map (\<lambda>vi. vi ^ 2) v) = 0)"
    by (rule reflection_value_error)
qed

theorem reflection_norm_zero_witness:
  "length [3, 4 :: rat] = 2 \<and> sum_list (map (\<lambda>vi. vi ^ 2) [3, 4 :: rat]) = 25 \<and>
   reflection 2 [3, 4 :: rat] \<noteq> Inl (ValueError ''v has norm zero'')"
  using reflection_norm_zero_nonzero_vector[where ?'a = rat, THEN conjunct2, rule_format, of "[3, 4]" 2]
  by simp

text \<open>C6: when the coerced matrix is invertible, \<open>linear_elt\<close> returns the element with
  that matrix and the zero translation, which acts as \<open>x \<mapsto> A x\<close>; when it is not
  invertible, in particular when its determinant is zero, \<open>linear_elt\<close> raises the type
  error.\<close>

theorem linear_invertible_or_type_error:
  fixes M :: "'a::field mat"
  assumes "matrix_space_coerce d Ain = Inr M"
  shows "(is_invertible M \<longrightarrow>
            linear_elt d Ain = Inr \<lparr>parent = d, elt_A = M, elt_b = vector_space_zero d\<rparr> \<and>
            (\<forall>x. length x = d \<longrightarrow>
               act \<lparr>parent = d, elt_A = M, elt_b = vector_space_zero d\<rparr> x = mat_vec M x))
       \<and> (\<not> is_invertible M \<longrightarrow> linear_elt d Ain = Inl (TypeError ''A must be invertible''))
       \<and> (det M = 0 \<longrightarrow> linear_elt d Ain = Inl (TypeError ''A must be invertible''))"
proof -
  have "act \<lparr>parent = d, elt_A = M, elt_b = vector_space_zero d\<rparr> x = mat_vec M x" for x
    using coerce_length[OF assms]
    by (simp add: act_def vec_add_zero_right length_mat_vec)
  then show ?thesis
    using linear_unfold[OF assms] by (simp add: is_invertible_def)
qed

theorem linear_invertible_or_type_error_witness:
  "linear_elt 3 (Entries [1, 2, 3, 4, 5, 6, 7, 8, 0 :: rat])
     = Inr \<lparr>parent = 3, elt_A = [[1, 2, 3], [4, 5, 6], [7, 8, 0]], elt_b = vector_space_zero 3\<rparr>
   \<and> act \<lparr>parent = 3, elt_A = [[1, 2, 3], [4, 5, 6], [7, 8, 0 :: rat]], elt_b = vector_space_zero 3\<rparr> [1, 0, 0]
     = [1, 4, 7]
   \<and> linear_elt 3 (Entries [1, 2, 3, 4, 5, 6, 7, 8, 9 :: rat]) = Inl (TypeError ''A must be invertible'')"
proof -
  have c1: "matrix_space_coerce 3 (Entries [1, 2, 3, 4, 5, 6, 7, 8, 0 :: rat])
            = Inr [[1, 2, 3], [4, 5, 6], [7, 8, 0]]"
    by (simp add: matrix_space_coerce_def eval_nat_numeral)
  have c2: "matrix_space_coerce 3 (Entries [1, 2, 3, 4, 5, 6, 7, 8, 9 :: rat])
            = Inr [[1, 2, 3], [4, 5, 6], [7, 8, 9]]"
    by (simp add: matrix_space_coerce_def eval_nat_numeral)
  have i1: "is_invertible [[1, 2, 3], [4, 5, 6], [7, 8, 0 :: rat]]"
    by (simp add: is_invertible_def drop_col_def)
  have d2: "det [[1, 2, 3], [4, 5, 6], [7, 8, 9 :: rat]] = 0"
    by (simp add: drop_col_def)
  have mv: "mat_vec [[1, 2, 3], [4, 5, 6], [7, 8, 0 :: rat]] [1, 0, 0] = [1, 4, 7]"
    by (simp add: mat_vec_def dot_def)
  show ?thesis
    using linear_invertible_or_type_error[OF c1] linear_invertible_or_type_error[OF c2] i1 d2 mv
    by simp
qed


lemma translation_unfold:
  "length b = d \<Longrightarrow>
   translation d b = Inr \<lparr>parent = d, elt_A = matrix_space_one d, elt_b = (b :: 'a::field list)\<rparr>"
  by (simp add: translation_def vector_space_coerce_def element_class_def)

lemma length_vec_add: "length (vec_add u v) = min (length u) (length v)"
  by (simp add: vec_add_def)

text \<open>C4: the product of the translations by \<open>b1\<close> and \<open>b2\<close> is the translation by
  \<open>b1 + b2\<close>.\<close>

theorem translation_product:
  fixes b1 b2 :: "'a::field list"
  assumes "length b1 = d" "length b2 = d"
  shows "\<exists>t1 t2. translation d b1 = Inr t1 \<and> translation d b2 = Inr t2 \<and>
           translation d (vec_add b1 b2) = Inr (mul t1 t2)"
proof -
  have "length (vec_add b1 b2) = d"
    using assms by (simp add: length_vec_add)
  then show ?thesis
    using assms
    by (simp add: translation_unfold mul_def one_mul_one mat_vec_one)
qed

theorem translation_product_witness:
  "translation 3 [1, 4, 8 :: rat] = Inr \<lparr>parent = 3, elt_A = matrix_space_one 3, elt_b = [1, 4, 8]\<rparr> \<and>
   translation 3 [1, 2, 3 :: rat] = Inr \<lparr>parent = 3, elt_A = matrix_space_one 3, elt_b = [1, 2, 3]\<rparr> \<and>
   translation 3 [2, 6, 11 :: rat]
     = Inr (mul \<lparr>parent = 3, elt_A = matrix_space_one 3, elt_b = [1, 4, 8]\<rparr>
                \<lparr>parent = 3, elt_A = matrix_space_one 3, elt_b = [1, 2, 3]\<rparr>)"
proof -
  have l: "length [1, 4, 8 :: rat] = 3" "length [1, 2, 3 :: rat] = 3"
    by simp_all
  have v: "vec_add [1, 4, 8 :: rat] [1, 2, 3] = [2, 6, 11]"
    by (simp add: vec_add_def)
  show ?thesis
    using translation_product[OF l] by (simp add: v translation_unfold)
qed

lemma reflection_example:
  "reflection 3 [1, 0, 0 :: rat]
     = Inr \<lparr>parent = 3, elt_A = [[-1, 0, 0], [0, 1, 0], [0, 0, 1]], elt_b = [0, 0, 0]\<rparr>"
  by code_simp

lemma random_element_example:
  "random_element 2 (\<lambda>i. if i = 0 then [[0, 0], [0, 0]] else [[1, 0], [0, 1 :: rat]]) [5, 7]
     = Some (Inr \<lparr>parent = 2, elt_A = [[1, 0], [0, 1]], elt_b = [5, 7]\<rparr>)"
  unfolding random_element_def
  by (subst resample.simps, subst resample.simps)
    (simp add: is_invertible_def drop_col_def element_class_def)

lemma an_element_example:
  "an_element 2 [[1, 2], [2, 4]] (\<lambda>i. [[2, 0], [0, 1 :: rat]]) [1, 0]
     = Some (Inr \<lparr>parent = 2, elt_A = [[2, 0], [0, 1]], elt_b = [1, 0]\<rparr>)"
  unfolding an_element_def
  by (subst resample.simps, subst resample.simps)
    (simp add: is_invertible_def drop_col_def element_class_def)


lemma linear_Inr: "linear_elt d Ain = Inr g \<Longrightarrow> is_invertible (elt_A g)"
  by (auto simp: linear_elt_def element_class_def element_constructor_check_def
      split: sum.splits if_splits)

lemma random_element_Inr:
  "random_element d draws b0 = Some (Inr g) \<Longrightarrow> is_invertible (elt_A g)"
  by (auto simp: random_element_def element_class_def split: option.splits
      dest: resample_invertible)

lemma an_element_Inr:
  "an_element d A0 draws b0 = Some (Inr g) \<Longrightarrow> is_invertible (elt_A g)"
  by (auto simp: an_element_def element_class_def split: option.splits
      dest: resample_invertible)

text \<open>C1: the linear part of every element that \<open>linear_elt\<close>, \<open>reflection\<close>,
  \<open>random_element\<close> or the example element \<open>an_element\<close> returns is invertible.\<close>

theorem constructors_invertible:
  "(linear_elt d Ain = Inr g1 \<longrightarrow> is_invertible (elt_A g1)) \<and>
   (reflection d v = Inr g2 \<longrightarrow> is_invertible (elt_A g2)) \<and>
   (random_element d draws b0 = Some (Inr g3) \<longrightarrow> is_invertible (elt_A g3)) \<and>
   (an_element d A0 draws' b1 = Some (Inr g4) \<longrightarrow> is_invertible (elt_A g4))"
proof (intro conjI impI)
  assume "reflection d v = Inr g2"
  from reflection_Inr[OF this] show "is_invertible (elt_A g2)"
    by simp
qed (erule linear_Inr random_element_Inr an_element_Inr)+

theorem constructors_invertible_witness:
  "is_invertible [[1, 2, 3], [4, 5, 6], [7, 8, 0 :: rat]] \<and>
   is_invertible [[-1, 0, 0], [0, 1, 0], [0, 0, 1 :: rat]] \<and>
   is_invertible [[1, 0], [0, 1 :: rat]] \<and>
   is_invertible [[2, 0], [0, 1 :: rat]]"
proof -
  have l: "linear_elt 3 (Rows [[1, 2, 3], [4, 5, 6], [7, 8, 0 :: rat]])
           = Inr \<lparr>parent = 3, elt_A = [[1, 2, 3], [4, 5, 6], [7, 8, 0]], elt_b = [0, 0, 0]\<rparr>"
    by code_simp
  show ?thesis
    using constructors_invertible[THEN conjunct1, rule_format, OF l]
      constructors_invertible[THEN conjunct2, THEN conjunct1, rule_format, OF reflection_example]
      constructors_invertible[THEN conjunct2, THEN conjunct2, THEN conjunct1, rule_format,
        OF random_element_example]
      constructors_invertible[THEN conjunct2, THEN conjunct2, THEN conjunct2, rule_format,
        OF an_element_example]
    by simp
qed

lemma mul_reflection:
  fixes v :: "'a::field list"
  assumes len: "length v = d" and nz: "dot v v \<noteq> 0"
  shows "mul \<lparr>parent = d, elt_A = householder d v, elt_b = vector_space_zero d\<rparr>
             \<lparr>parent = d, elt_A = householder d v, elt_b = vector_space_zero d\<rparr> = identity d"
  by (simp add: mul_def identity_def householder_involution[OF len nz] mat_vec_zero
      length_householder vec_add_zero_zero)

section \<open>Properties of the determinant\<close>

lemma drop_col_Nil [simp]: "drop_col j [] = []"
  by (simp add: drop_col_def)

lemma drop_col_0 [simp]: "drop_col 0 (x # xs) = xs"
  by (simp add: drop_col_def)

lemma drop_col_Suc [simp]: "drop_col (Suc j) (x # xs) = x # drop_col j xs"
  by (simp add: drop_col_def)

lemma drop_col_comm:
  "j \<le> k \<Longrightarrow> drop_col k (drop_col j xs) = drop_col j (drop_col (Suc k) xs)"
proof (induction xs arbitrary: j k)
  case Nil
  then show ?case by simp
next
  case (Cons x xs)
  show ?case
  proof (cases j)
    case 0
    then show ?thesis by simp
  next
    case (Suc j')
    then obtain k' where k: "k = Suc k'" and le: "j' \<le> k'"
      using Cons.prems by (cases k) auto
    show ?thesis
      using Cons.IH[OF le] by (simp add: Suc k)
  qed
qed

lemma length_drop_col: "j < length xs \<Longrightarrow> length (drop_col j xs) = length xs - 1"
  by (simp add: drop_col_def)

lemma nth_drop_col:
  "Suc k < length xs \<Longrightarrow> drop_col j xs ! k = (if k < j then xs ! k else xs ! Suc k)"
proof (induction xs arbitrary: j k)
  case Nil
  then show ?case by simp
next
  case (Cons x xs)
  show ?case
  proof (cases j)
    case 0
    then show ?thesis by simp
  next
    case (Suc j')
    show ?thesis
    proof (cases k)
      case 0
      then show ?thesis by (simp add: Suc)
    next
      case (Suc k')
      then have "Suc k' < length xs"
        using Cons.prems by simp
      from Cons.IH[OF this, of j'] show ?thesis
        by (simp add: \<open>j = Suc j'\<close> Suc)
    qed
  qed
qed

lemma drop_col_vec_add:
  "length a = length b \<Longrightarrow> drop_col j (vec_add a b) = vec_add (drop_col j a) (drop_col j b)"
proof (induction a arbitrary: b j)
  case Nil
  then show ?case by (simp add: vec_add_def)
next
  case (Cons x a)
  then obtain y b' where b: "b = y # b'" and len: "length a = length b'"
    by (cases b) auto
  show ?case
  proof (cases j)
    case 0
    then show ?thesis by (simp add: b vec_add_def)
  next
    case (Suc j')
    then show ?thesis
      using Cons.IH[OF len, of j'] by (simp add: b vec_add_def)
  qed
qed

lemma drop_col_vec_scale: "drop_col j (vec_scale c b) = vec_scale c (drop_col j b)"
  by (simp add: drop_col_def vec_scale_def take_map drop_map)

lemma det_Cons_sum:
  "det (r # rs) = (\<Sum>j<length r. (- 1) ^ j * r ! j * det (map (drop_col j) rs))"
  by (simp add: interv_sum_list_conv_sum_set_nat atLeast0LessThan)

lemma det_linear_head:
  fixes a b :: "'a::comm_ring_1 list"
  assumes "length a = length b"
  shows "det (vec_add a (vec_scale c b) # rs) = det (a # rs) + c * det (b # rs)"
proof -
  have len: "length (vec_add a (vec_scale c b)) = length b"
    using assms by (simp add: vec_add_def vec_scale_def)
  have nth: "vec_add a (vec_scale c b) ! j = a ! j + c * b ! j" if "j < length b" for j
    using assms that by (simp add: vec_add_def vec_scale_def)
  have "det (vec_add a (vec_scale c b) # rs)
        = (\<Sum>j<length b. (- 1) ^ j * (a ! j + c * b ! j) * det (map (drop_col j) rs))"
    unfolding det_Cons_sum len by (rule sum.cong) (simp_all add: nth)
  also have "\<dots> = (\<Sum>j<length b. (- 1) ^ j * a ! j * det (map (drop_col j) rs))
                 + c * (\<Sum>j<length b. (- 1) ^ j * b ! j * det (map (drop_col j) rs))"
    by (simp add: sum_distrib_left sum.distrib[symmetric] algebra_simps)
  finally show ?thesis
    unfolding det_Cons_sum assms .
qed

lemma det_linear:
  fixes a b :: "'a::comm_ring_1 list"
  assumes "length a = length b"
  shows "det (xs @ vec_add a (vec_scale c b) # ys) = det (xs @ a # ys) + c * det (xs @ b # ys)"
  using assms
proof (induction "length xs" arbitrary: xs a b ys)
  case 0
  then show ?case by (simp add: det_linear_head del: det.simps)
next
  case (Suc n)
  then obtain r xs' where xs: "xs = r # xs'" and n: "n = length xs'"
    by (cases xs) auto
  have "det (map (drop_col j) xs' @ drop_col j (vec_add a (vec_scale c b)) # map (drop_col j) ys)
        = det (map (drop_col j) xs' @ drop_col j a # map (drop_col j) ys)
          + c * det (map (drop_col j) xs' @ drop_col j b # map (drop_col j) ys)" for j
  proof -
    have l: "length (drop_col j a) = length (drop_col j b)"
      using Suc.prems by (simp add: drop_col_def)
    have "length a = length (vec_scale c b)"
      using Suc.prems by (simp add: vec_scale_def)
    then have "drop_col j (vec_add a (vec_scale c b)) = vec_add (drop_col j a) (vec_scale c (drop_col j b))"
      by (simp only: drop_col_vec_add drop_col_vec_scale)
    then show ?thesis
      using Suc.hyps(1)[of "map (drop_col j) xs'", OF _ l] n by simp
  qed
  then show ?case
    by (simp add: xs det_Cons_sum sum_distrib_left sum.distrib[symmetric] algebra_simps del: det.simps)
qed


lemma double_sum_cancel:
  fixes u :: "nat \<Rightarrow> nat \<Rightarrow> 'a::ab_group_add"
  shows "(\<Sum>j<Suc m. (\<Sum>k<j. u j k) + (\<Sum>k=j..<m. - u (Suc k) j)) = 0"
proof -
  have shift: "(\<Sum>k=j..<m. u (Suc k) j) = (\<Sum>i=Suc j..m. u i j)" for j
  proof -
    have "(\<Sum>i=Suc j..m. u i j) = (\<Sum>i=Suc j..<Suc m. u i j)"
      by (simp only: atLeastLessThanSuc_atLeastAtMost)
    also have "\<dots> = (\<Sum>k=j..<m. u (Suc k) j)"
      by (rule sum.shift_bounds_Suc_ivl)
    finally show ?thesis
      by simp
  qed
  have "(\<Sum>j<Suc m. (\<Sum>k<j. u j k) + (\<Sum>k=j..<m. - u (Suc k) j))
        = (\<Sum>j\<le>m. \<Sum>k<j. u j k) - (\<Sum>j<Suc m. \<Sum>i=Suc j..m. u i j)"
    by (simp add: sum.distrib sum_negf sum_subtractf shift lessThan_Suc_atMost)
  also have "(\<Sum>j<Suc m. \<Sum>i=Suc j..m. u i j) = (\<Sum>j<m. \<Sum>i=Suc j..m. u i j)"
    by simp
  also have "(\<Sum>j\<le>m. \<Sum>k<j. u j k) = (\<Sum>j<m. \<Sum>i=Suc j..m. u i j)"
    by (rule sum.nested_swap')
  finally show ?thesis
    by simp
qed

lemma det_equal_head:
  fixes a :: "'a::comm_ring_1 list"
  shows "det (a # a # rs) = 0"
proof (cases "length a")
  case 0
  then show ?thesis by simp
next
  case (Suc m)
  define D where "D j k = det (map (drop_col k) (map (drop_col j) rs))" for j k
  define u where "u j k = (- 1) ^ (j + k) * a ! j * a ! k * D j k" for j k
  have Dsym: "D j k = D (Suc k) j" if "j \<le> k" for j k
  proof -
    have "map (drop_col k) (map (drop_col j) rs) = map (drop_col j) (map (drop_col (Suc k)) rs)"
      using that by (simp add: drop_col_comm)
    then show ?thesis
      unfolding D_def by (rule arg_cong)
  qed
  have inner: "det (drop_col j a # map (drop_col j) rs)
               = (\<Sum>k<m. (- 1) ^ k * drop_col j a ! k * D j k)" if "j < Suc m" for j
    using that Suc unfolding det_Cons_sum D_def by (simp add: length_drop_col)
  have split_row: "(- 1) ^ j * a ! j * (\<Sum>k<m. (- 1) ^ k * drop_col j a ! k * D j k)
              = (\<Sum>k<j. u j k) + (\<Sum>k=j..<m. - u (Suc k) j)" if j: "j < Suc m" for j
  proof -
    have "(\<Sum>k<m. (- 1) ^ k * drop_col j a ! k * D j k)
          = (\<Sum>k=0..<j. (- 1) ^ k * drop_col j a ! k * D j k)
            + (\<Sum>k=j..<m. (- 1) ^ k * drop_col j a ! k * D j k)"
      using j by (simp add: sum.atLeastLessThan_concat atLeast0LessThan[symmetric])
    also have "(\<Sum>k=0..<j. (- 1) ^ k * drop_col j a ! k * D j k)
               = (\<Sum>k=0..<j. (- 1) ^ k * a ! k * D j k)"
      by (rule sum.cong) (use j Suc in \<open>simp_all add: nth_drop_col\<close>)
    also have "(\<Sum>k=j..<m. (- 1) ^ k * drop_col j a ! k * D j k)
               = (\<Sum>k=j..<m. (- 1) ^ k * a ! Suc k * D (Suc k) j)"
      by (rule sum.cong) (use j Suc Dsym in \<open>simp_all add: nth_drop_col\<close>)
    finally have "(- 1) ^ j * a ! j * (\<Sum>k<m. (- 1) ^ k * drop_col j a ! k * D j k)
          = (\<Sum>k=0..<j. (- 1) ^ j * a ! j * ((- 1) ^ k * a ! k * D j k))
            + (\<Sum>k=j..<m. (- 1) ^ j * a ! j * ((- 1) ^ k * a ! Suc k * D (Suc k) j))"
      by (simp add: sum_distrib_left distrib_left)
    also have "(\<Sum>k=0..<j. (- 1) ^ j * a ! j * ((- 1) ^ k * a ! k * D j k)) = (\<Sum>k<j. u j k)"
      unfolding atLeast0LessThan by (rule sum.cong) (simp_all add: u_def power_add)
    also have "(\<Sum>k=j..<m. (- 1) ^ j * a ! j * ((- 1) ^ k * a ! Suc k * D (Suc k) j))
               = (\<Sum>k=j..<m. - u (Suc k) j)"
      by (rule sum.cong) (simp_all add: u_def power_add)
    finally show ?thesis .
  qed
  have "det (a # a # rs) = (\<Sum>j<Suc m. (- 1) ^ j * a ! j * det (drop_col j a # map (drop_col j) rs))"
    unfolding det_Cons_sum[of a] Suc by simp
  also have "\<dots> = (\<Sum>j<Suc m. (\<Sum>k<j. u j k) + (\<Sum>k=j..<m. - u (Suc k) j))"
    by (rule sum.cong) (simp_all only: lessThan_iff inner split_row)
  also have "\<dots> = 0"
    by (rule double_sum_cancel)
  finally show ?thesis .
qed


lemma det_equal_adjacent:
  fixes a :: "'a::comm_ring_1 list"
  shows "det (xs @ a # a # ys) = 0"
proof (induction "length xs" arbitrary: xs a ys)
  case 0
  then show ?case by (simp add: det_equal_head del: det.simps)
next
  case (Suc n)
  then obtain r xs' where xs: "xs = r # xs'" and n: "n = length xs'"
    by (cases xs) auto
  have "det (map (drop_col j) xs' @ drop_col j a # drop_col j a # map (drop_col j) ys) = 0" for j
    using Suc.hyps(1)[of "map (drop_col j) xs'"] n by simp
  then show ?case
    by (simp add: xs det_Cons_sum del: det.simps)
qed

lemma vec_scale_one: "vec_scale 1 b = (b :: 'a::monoid_mult list)"
  by (simp add: vec_scale_def)

lemma length_vec_add_eq: "length a = length b \<Longrightarrow> length (vec_add a b) = length b"
  by (simp add: vec_add_def)

lemma det_swap_adjacent:
  fixes a b :: "'a::comm_ring_1 list"
  assumes "length a = length b"
  shows "det (xs @ a # b # ys) = - det (xs @ b # a # ys)"
proof -
  let ?s = "vec_add a b"
  have ls: "length a = length b" "length b = length a"
    using assms by simp_all
  have s: "?s = vec_add a (vec_scale 1 b)"
    by (simp add: vec_scale_one)
  have "det (xs @ ?s # ?s # ys) = det (xs @ a # ?s # ys) + det (xs @ b # ?s # ys)"
    using det_linear[OF ls(1), of xs 1 "?s # ys"] by (simp add: vec_scale_one)
  moreover have "det (xs @ a # ?s # ys) = det (xs @ a # a # ys) + det (xs @ a # b # ys)"
    using det_linear[OF ls(1), of "xs @ [a]" 1 ys] by (simp add: vec_scale_one)
  moreover have "det (xs @ b # ?s # ys) = det (xs @ b # a # ys) + det (xs @ b # b # ys)"
    using det_linear[OF ls(1), of "xs @ [b]" 1 ys] by (simp add: vec_scale_one)
  ultimately have "det (xs @ a # b # ys) + det (xs @ b # a # ys) = 0"
    by (simp add: det_equal_adjacent)
  then show ?thesis
    by (simp add: eq_neg_iff_add_eq_0)
qed

lemma det_equal_rows:
  fixes a :: "'a::comm_ring_1 list"
  assumes "\<forall>m\<in>set ms. length m = length a"
  shows "det (xs @ a # ms @ a # ys) = 0"
  using assms
proof (induction ms arbitrary: xs)
  case Nil
  then show ?case by (simp add: det_equal_adjacent)
next
  case (Cons m ms)
  then have lm: "length a = length m" and rest: "\<forall>m\<in>set ms. length m = length a"
    by simp_all
  have "det (xs @ a # (m # ms) @ a # ys) = det (xs @ a # m # (ms @ a # ys))"
    by simp
  also have "\<dots> = - det (xs @ m # a # (ms @ a # ys))"
    by (rule det_swap_adjacent[OF lm])
  also have "det (xs @ m # a # (ms @ a # ys)) = det ((xs @ [m]) @ a # ms @ a # ys)"
    by simp
  also have "\<dots> = 0"
    by (rule Cons.IH[OF rest])
  finally show ?case
    by simp
qed


lemma det_zero_row:
  "det (xs @ replicate m 0 # ys) = (0 :: 'a::comm_ring_1)"
proof -
  let ?z = "replicate m (0::'a)"
  have "vec_add ?z (vec_scale 1 ?z) = ?z"
    by (simp add: vec_scale_one vec_add_def)
  then have "det (xs @ ?z # ys) = det (xs @ ?z # ys) + 1 * det (xs @ ?z # ys)"
    using det_linear[of ?z ?z xs 1 ys] by simp
  then show ?thesis
    by simp
qed

lemma upt_0_Suc: "[0..<Suc n] = 0 # map Suc [0..<n]"
  by (simp add: upt_conv_Cons map_Suc_upt del: upt_Suc)

lemma unit_vec_0: "unit_vec (Suc n) 0 = 1 # replicate n 0"
  unfolding unit_vec_def upt_0_Suc by (simp add: o_def map_replicate_const)

lemma unit_vec_Suc: "unit_vec (Suc n) (Suc i) = 0 # unit_vec n i"
  unfolding unit_vec_def upt_0_Suc by simp

lemma length_unit_vec [simp]: "length (unit_vec n i) = n"
  by (simp add: unit_vec_def)

lemma nth_unit_vec: "j < n \<Longrightarrow> unit_vec n i ! j = (if i = j then 1 else 0)"
  by (simp add: unit_vec_def)

lemma map_unit_vec_Suc:
  "map (unit_vec (Suc n)) [Suc a..<Suc b] = map (\<lambda>i. 0 # unit_vec n i) [a..<b]"
  unfolding map_Suc_upt[symmetric] by (simp add: unit_vec_Suc)

lemma drop_col_unit_vec_same:
  "j < n \<Longrightarrow> drop_col j (unit_vec n j) = replicate (n - 1) 0"
proof (induction n arbitrary: j)
  case 0
  then show ?case by simp
next
  case (Suc n)
  show ?case
  proof (cases j)
    case 0
    then show ?thesis by (simp add: unit_vec_0)
  next
    case (Suc j')
    then have "j' < n"
      using Suc.prems by simp
    from Suc.IH[OF this] show ?thesis
      using \<open>j' < n\<close> by (cases n) (simp_all add: Suc unit_vec_Suc)
  qed
qed

lemma one_unit_vec: "matrix_space_one n = map (unit_vec n) [0..<n]"
  by (simp add: matrix_space_one_def unit_vec_def)


lemma upt_split: "j < n \<Longrightarrow> [0..<n] = [0..<j] @ j # [Suc j..<n]"
  using upt_add_eq_append[of 0 j "n - j"] by (simp add: upt_conv_Cons)

lemma det_unit_rows_replace:
  fixes w :: "'a::comm_ring_1 list"
  assumes "k < n" and "length w = n"
  shows "det (map (unit_vec n) [0..<k] @ w # map (unit_vec n) [Suc k..<n]) = w ! k"
  using assms
proof (induction n arbitrary: k w)
  case 0
  then show ?case by simp
next
  case (Suc n)
  then obtain w0 w' where w: "w = w0 # w'" and lw: "length w' = n"
    by (cases w) auto
  show ?case
  proof (cases k)
    case 0
    have one: "det (map (unit_vec n) [0..<n]) = (1::'a)"
    proof (cases n)
      case 0
      then show ?thesis by simp
    next
      case (Suc n')
      have "det (map (unit_vec n) [0..<0] @ unit_vec n 0 # map (unit_vec n) [Suc 0..<n])
            = (unit_vec n 0 :: 'a list) ! 0"
        by (rule Suc.IH) (simp_all add: Suc)
      moreover have "[0..<n] = 0 # [Suc 0..<n]"
        by (simp add: Suc upt_conv_Cons del: upt_Suc)
      ultimately show ?thesis
        by (simp add: nth_unit_vec Suc del: upt_Suc)
    qed
    have zero: "det (map (drop_col (Suc j)) (map (\<lambda>i. 0 # unit_vec n i) [0..<n])) = (0::'a)"
      if "j < n" for j
    proof -
      have "map (drop_col (Suc j)) (map (\<lambda>i. 0 # unit_vec n i) [0..<n])
            = map (\<lambda>i. 0 # drop_col j (unit_vec n i)) ([0..<j] @ j # [Suc j..<n])"
        unfolding upt_split[OF that, symmetric] by simp
      also have "\<dots> = map (\<lambda>i. 0 # drop_col j (unit_vec n i)) [0..<j]
                       @ replicate n (0::'a) # map (\<lambda>i. 0 # drop_col j (unit_vec n i)) [Suc j..<n]"
        using that by (cases n) (simp_all add: drop_col_unit_vec_same)
      finally show ?thesis
        by (simp only: det_zero_row)
    qed
    have "det (w # map (unit_vec (Suc n)) [Suc 0..<Suc n])
          = (\<Sum>j<Suc n. (- 1) ^ j * w ! j
               * det (map (drop_col j) (map (\<lambda>i. 0 # unit_vec n i) [0..<n])))"
      unfolding det_Cons_sum map_unit_vec_Suc using Suc.prems(2) by simp
    also have "\<dots> = w ! 0 * det (map (drop_col 0) (map (\<lambda>i. 0 # unit_vec n i) [0..<n]))"
    proof -
      have "(\<Sum>j<n. (- 1) ^ Suc j * w ! Suc j
               * det (map (drop_col (Suc j)) (map (\<lambda>i. 0 # unit_vec n i) [0..<n]))) = 0"
      proof (rule sum.neutral, rule ballI)
        fix j assume "j \<in> {..<n}"
        then have "j < n"
          by simp
        from zero[OF this]
        show "(- 1) ^ Suc j * w ! Suc j
               * det (map (drop_col (Suc j)) (map (\<lambda>i. 0 # unit_vec n i) [0..<n])) = 0"
          by (simp only: mult_zero_right)
      qed
      then show ?thesis
        unfolding sum.lessThan_Suc_shift by (simp only: power_0 mult_1 add_0_right)
    qed
    also have "map (drop_col 0) (map (\<lambda>i. 0 # unit_vec n i) [0..<n]) = map (unit_vec n) [0..<n]"
      by simp
    finally show ?thesis
      by (simp add: 0 one del: upt_Suc)
  next
    case (Suc k')
    then have k': "k' < n"
      using Suc.prems(1) by simp
    have split: "[0..<Suc k'] = 0 # [Suc 0..<Suc k']"
      by (simp add: upt_conv_Cons del: upt_Suc)
    have "map (unit_vec (Suc n)) [0..<k] @ w # map (unit_vec (Suc n)) [Suc k..<Suc n]
          = (1 # replicate n 0)
            # (map (\<lambda>i. 0 # unit_vec n i) [0..<k'] @ w # map (\<lambda>i. 0 # unit_vec n i) [Suc k'..<n])"
      unfolding Suc split by (simp add: unit_vec_0 map_unit_vec_Suc del: upt_Suc)
    also have "det \<dots>
          = (\<Sum>j<Suc n. (- 1) ^ j * (1 # replicate n (0::'a)) ! j
               * det (map (drop_col j)
                   (map (\<lambda>i. 0 # unit_vec n i) [0..<k'] @ w # map (\<lambda>i. 0 # unit_vec n i) [Suc k'..<n])))"
      unfolding det_Cons_sum by simp
    also have "\<dots> = det (map (drop_col 0)
                   (map (\<lambda>i. 0 # unit_vec n i) [0..<k'] @ w # map (\<lambda>i. 0 # unit_vec n i) [Suc k'..<n]))"
      unfolding sum.lessThan_Suc_shift by (simp del: upt_Suc)
    also have "\<dots> = det (map (unit_vec n) [0..<k'] @ w' # map (unit_vec n) [Suc k'..<n])"
      by (simp add: w o_def del: upt_Suc)
    also have "\<dots> = w' ! k'"
      by (rule Suc.IH[OF k' lw])
    finally show ?thesis
      by (simp add: w Suc)
  qed
qed

lemma det_one: "det (matrix_space_one n) = (1 :: 'a::comm_ring_1)"
proof (cases n)
  case 0
  then show ?thesis by (simp add: matrix_space_one_def)
next
  case (Suc n')
  have "det (map (unit_vec n) [0..<0] @ unit_vec n 0 # map (unit_vec n) [Suc 0..<n])
        = (unit_vec n 0 :: 'a list) ! 0"
    by (rule det_unit_rows_replace) (simp_all add: Suc)
  moreover have "[0..<n] = 0 # [Suc 0..<n]"
    by (simp add: Suc upt_conv_Cons del: upt_Suc)
  ultimately show ?thesis
    by (simp add: one_unit_vec nth_unit_vec Suc del: upt_Suc)
qed


lemma det_rank_one_rows_replace:
  fixes w :: "'a::comm_ring_1 list"
  assumes "m \<le> k" and "k < n" and "length w = n"
  shows "det (map (\<lambda>i. vec_add (unit_vec n i) (vec_scale (t i) w)) [0..<m]
              @ map (unit_vec n) [m..<k] @ w # map (unit_vec n) [Suc k..<n]) = w ! k"
  using assms(1)
proof (induction m)
  case 0
  then show ?case
    using det_unit_rows_replace[OF assms(2,3)] by simp
next
  case (Suc m)
  let ?h = "\<lambda>i. vec_add (unit_vec n i) (vec_scale (t i) w)"
  let ?R = "map (unit_vec n) [Suc m..<k] @ w # map (unit_vec n) [Suc k..<n]"
  have mk: "m < k"
    using Suc.prems by simp
  have lw: "length (unit_vec n m :: 'a list) = length w"
    using assms(3) by simp
  have "map ?h [0..<Suc m] @ ?R = map ?h [0..<m] @ ?h m # ?R"
    by simp
  also have "det \<dots> = det (map ?h [0..<m] @ unit_vec n m # ?R)
                        + t m * det (map ?h [0..<m] @ w # ?R)"
    by (rule det_linear[OF lw])
  also have "map ?h [0..<m] @ unit_vec n m # ?R
             = map ?h [0..<m] @ map (unit_vec n) [m..<k] @ w # map (unit_vec n) [Suc k..<n]"
    using mk by (simp add: upt_conv_Cons)
  also have "det \<dots> = w ! k"
    using Suc.IH mk by simp
  also have "det (map ?h [0..<m] @ w # ?R) = 0"
    by (rule det_equal_rows) (simp add: assms(3))
  finally show ?case
    by simp
qed

lemma det_rank_one_update:
  fixes w :: "'a::comm_ring_1 list"
  assumes "k \<le> n" and "length w = n"
  shows "det (map (\<lambda>i. vec_add (unit_vec n i) (vec_scale (t i) w)) [0..<k]
              @ map (unit_vec n) [k..<n]) = 1 + (\<Sum>i<k. t i * w ! i)"
  using assms(1)
proof (induction k)
  case 0
  then show ?case
    using det_one[of n, where ?'a = 'a] by (simp add: one_unit_vec)
next
  case (Suc k)
  let ?h = "\<lambda>i. vec_add (unit_vec n i) (vec_scale (t i) w)"
  let ?R = "map (unit_vec n) [Suc k..<n]"
  have kn: "k < n"
    using Suc.prems by simp
  have lw: "length (unit_vec n k :: 'a list) = length w"
    using assms(2) by simp
  have "map ?h [0..<Suc k] @ ?R = map ?h [0..<k] @ ?h k # ?R"
    by simp
  also have "det \<dots> = det (map ?h [0..<k] @ unit_vec n k # ?R)
                        + t k * det (map ?h [0..<k] @ w # ?R)"
    by (rule det_linear[OF lw])
  also have "map ?h [0..<k] @ unit_vec n k # ?R = map ?h [0..<k] @ map (unit_vec n) [k..<n]"
    using kn by (simp add: upt_conv_Cons)
  also have "det \<dots> = 1 + (\<Sum>i<k. t i * w ! i)"
    using Suc.IH kn by simp
  also have "det (map ?h [0..<k] @ w # ?R) = w ! k"
    using det_rank_one_rows_replace[OF le_refl kn assms(2), of t] by simp
  finally show ?case
    by simp
qed

lemma householder_rows:
  fixes v :: "'a::field list"
  assumes "length v = d"
  shows "householder d v
         = map (\<lambda>i. vec_add (unit_vec d i) (vec_scale (- (2 * v ! i / dot v v)) v)) [0..<d]"
proof -
  have v: "v = map (\<lambda>j. v ! j) [0..<d]"
    using assms map_nth[of v] by simp
  have "vec_add (unit_vec d i) (vec_scale c (map (\<lambda>j. v ! j) [0..<d]))
        = map (\<lambda>j. (if i = j then 1 else 0) + c * v ! j) [0..<d]" for i c
    by (simp add: vec_add_def vec_scale_def unit_vec_def map2_map_same o_def)
  then have "vec_add (unit_vec d i) (vec_scale c v)
        = map (\<lambda>j. (if i = j then 1 else 0) + c * v ! j) [0..<d]" for i c
    using v by simp
  then show ?thesis
    by (simp add: householder_def mat_of_def field_simps)
qed

lemma det_householder:
  fixes v :: "'a::field list"
  assumes "length v = d" and "dot v v \<noteq> 0"
  shows "det (householder d v) = - 1"
proof -
  have "det (householder d v) = 1 + (\<Sum>i<d. - (2 * v ! i / dot v v) * v ! i)"
    unfolding householder_rows[OF assms(1)]
    using det_rank_one_update[OF le_refl assms(1), of "\<lambda>i. - (2 * v ! i / dot v v)"] by simp
  also have "(\<Sum>i<d. - (2 * v ! i / dot v v) * v ! i) = - (2 / dot v v) * (\<Sum>i<d. v ! i * v ! i)"
    by (simp add: sum_distrib_left sum_negf algebra_simps)
  also have "(\<Sum>i<d. v ! i * v ! i) = dot v v"
    by (rule dot_nth_sum[OF assms(1), symmetric])
  finally show ?thesis
    using assms(2) by simp
qed

lemma householder_invertible:
  fixes v :: "'a::field list"
  assumes "length v = d" and "dot v v \<noteq> 0"
  shows "is_invertible (householder d v)"
  by (simp add: is_invertible_def det_householder[OF assms])

section \<open>Reflections\<close>

lemma reflection_returns:
  fixes v :: "'a::field list"
  assumes "length v = d" and "sum_list (map (\<lambda>vi. vi ^ 2) v) \<noteq> 0"
  shows "reflection d v = Inr \<lparr>parent = d, elt_A = householder d v, elt_b = vector_space_zero d\<rparr>"
proof -
  have nz: "dot v v \<noteq> 0"
    using assms(2) by (simp add: sum_squares_dot)
  show ?thesis
    unfolding reflection_unfold[OF assms(1) nz]
    by (simp add: element_class_def element_constructor_check_def
        householder_invertible[OF assms(1) nz])
qed

text \<open>C3: for a vector of the space whose squared norm is not zero, \<open>reflection\<close>
  returns an element, and the product of this element with itself is the identity of
  the group.\<close>

theorem reflection_involution:
  fixes v :: "'a::field list"
  assumes "length v = d" and "sum_list (map (\<lambda>vi. vi ^ 2) v) \<noteq> 0"
  shows "\<exists>g. reflection d v = Inr g \<and> mul g g = identity d"
proof -
  have nz: "dot v v \<noteq> 0"
    using assms(2) by (simp add: sum_squares_dot)
  show ?thesis
    unfolding reflection_returns[OF assms]
    using mul_reflection[OF assms(1) nz] by simp
qed

theorem reflection_involution_witness:
  "reflection 3 [1, 0, 0 :: rat]
     = Inr \<lparr>parent = 3, elt_A = [[-1, 0, 0], [0, 1, 0], [0, 0, 1]], elt_b = [0, 0, 0]\<rparr> \<and>
   mul \<lparr>parent = 3, elt_A = [[-1, 0, 0], [0, 1, 0], [0, 0, 1 :: rat]], elt_b = [0, 0, 0]\<rparr>
       \<lparr>parent = 3, elt_A = [[-1, 0, 0], [0, 1, 0], [0, 0, 1]], elt_b = [0, 0, 0]\<rparr>
   = identity 3"
proof -
  have l: "length [1, 0, 0 :: rat] = 3"
    by simp
  have s: "sum_list (map (\<lambda>vi. vi ^ 2) [1, 0, 0 :: rat]) \<noteq> 0"
    by simp
  show ?thesis
    using reflection_involution[OF l s] by (auto simp: reflection_example)
qed

text \<open>C5: for a vector of the space whose squared norm is not zero, \<open>reflection\<close>
  returns the element whose linear part is the Householder matrix
  \<open>I - 2 (v v\<^sup>t) / (v \<cdot> v)\<close> and whose translation part is the zero vector.\<close>

theorem reflection_householder:
  fixes v :: "'a::field list"
  assumes "length v = d" and "sum_list (map (\<lambda>vi. vi ^ 2) v) \<noteq> 0"
  shows "reflection d v = Inr \<lparr>parent = d, elt_A = householder d v, elt_b = vector_space_zero d\<rparr>"
  using assms by (rule reflection_returns)

theorem reflection_householder_witness:
  "reflection 3 [3, 4, - 5 :: rat]
     = Inr \<lparr>parent = 3,
            elt_A = [[16 / 25, - 12 / 25, 3 / 5], [- 12 / 25, 9 / 25, 4 / 5], [3 / 5, 4 / 5, 0]],
            elt_b = [0, 0, 0]\<rparr>"
proof -
  have l: "length [3, 4, - 5 :: rat] = 3"
    by simp
  have s: "sum_list (map (\<lambda>vi. vi ^ 2) [3, 4, - 5 :: rat]) \<noteq> 0"
    by simp
  have h: "householder 3 [3, 4, - 5 :: rat]
           = [[16 / 25, - 12 / 25, 3 / 5], [- 12 / 25, 9 / 25, 4 / 5], [3 / 5, 4 / 5, 0]]"
    by code_simp
  have z: "vector_space_zero 3 = [0, 0, 0 :: rat]"
    by code_simp
  show ?thesis
    unfolding reflection_householder[OF l s] h z by (rule refl)
qed

section \<open>Properties of the pickling round trip\<close>

lemma dumps_calls_reduce:
  "dumps (Meta i n bs ra) st =
     (case Metaclass_reduce (Meta i n bs ra) st of
        (Inl e, st1) \<Rightarrow> (Inl e, st1)
      | (Inr (name, bases), st1) \<Rightarrow>
          (case dumps_list bases st1 of
             (Inl e, st2) \<Rightarrow> (Inl e, st2)
           | (Inr ps, st2) \<Rightarrow> (Inr (Reduce name ps), st2)))"
  by (simp add: Let_def split: option.splits)













section \<open>Properties of the construction\<close>

lemma cache_inv_start: "cache_inv start"
  by (simp add: cache_inv_def start_def)

lemma AffineGroup_init_key:
  "AffineGroup_init dg rg = Inr G \<Longrightarrow> key_of G = (dg, rg)"
  by (auto simp: AffineGroup_init_def Group_init_def key_of_def split: pyval.splits)

lemma UniqueRepresentation_classcall_inv:
  assumes "cache_inv st" and "UniqueRepresentation_classcall dg rg st = (res, st')"
  shows "cache_inv st'"
proof (cases "cache st (dg, rg)")
  case (Some r)
  then show ?thesis
    using assms by (simp add: UniqueRepresentation_classcall_def)
next
  case None
  show ?thesis
  proof (cases "AffineGroup_init dg rg")
    case (Inl e)
    then show ?thesis
      using assms None by (simp add: UniqueRepresentation_classcall_def)
  next
    case (Inr G)
    have st': "st' = st\<lparr>instances := instances st @ [G],
                       cache := (cache st)((dg, rg) \<mapsto> length (instances st))\<rparr>"
      using assms(2) None Inr by (simp add: UniqueRepresentation_classcall_def)
    have k: "key_of G = (dg, rg)"
      using Inr by (rule AffineGroup_init_key)
    have old: "r < length (instances st) \<Longrightarrow> key_of (instances st ! r) \<noteq> (dg, rg)" for r
      using assms(1) None by (auto simp: cache_inv_def)
    have I1: "r < length (instances st) \<and> key_of (instances st ! r) = k'"
      if "cache st k' = Some r" for k' r
      using assms(1) that unfolding cache_inv_def by blast
    have I2: "cache st (key_of (instances st ! r)) = Some r"
      if "r < length (instances st)" for r
      using assms(1) that unfolding cache_inv_def by blast
    have A: "r < length (instances st') \<and> key_of (instances st' ! r) = k'"
      if c: "cache st' k' = Some r" for k' r
    proof (cases "k' = (dg, rg)")
      case True
      then have "r = length (instances st)"
        using c by (simp add: st')
      then show ?thesis
        using True k by (simp add: st')
    next
      case False
      then have "cache st k' = Some r"
        using c by (simp add: st')
      from I1[OF this] show ?thesis
        by (simp add: st' nth_append)
    qed
    have B: "cache st' (key_of (instances st' ! r)) = Some r"
      if r: "r < length (instances st')" for r
    proof (cases "r < length (instances st)")
      case True
      then have "key_of (instances st' ! r) = key_of (instances st ! r)"
        by (simp add: st' nth_append)
      moreover have "key_of (instances st ! r) \<noteq> (dg, rg)"
        using old[OF True] .
      ultimately show ?thesis
        using I2[OF True] by (simp add: st')
    next
      case False
      then have "r = length (instances st)"
        using r by (simp add: st')
      then show ?thesis
        using k by (simp add: st')
    qed
    show ?thesis
      unfolding cache_inv_def using A B by blast
  qed
qed

lemma AffineGroup_classcall_inv:
  assumes "cache_inv st" and "AffineGroup_classcall args kwds st = (res, st')"
  shows "cache_inv st'"
  using assms UniqueRepresentation_classcall_inv
  by (auto simp: AffineGroup_classcall_def split: normalized.splits)

lemma UniqueRepresentation_classcall_mono:
  assumes "cache_inv st" and "UniqueRepresentation_classcall dg rg st = (res, st')"
    and "cache st k = Some r"
  shows "cache st' k = Some r"
  using assms
  by (auto simp: UniqueRepresentation_classcall_def split: option.splits sum.splits)

lemma AffineGroup_classcall_mono:
  assumes "cache_inv st" and "AffineGroup_classcall args kwds st = (res, st')"
    and "cache st k = Some r"
  shows "cache st' k = Some r"
  using assms UniqueRepresentation_classcall_mono
  by (auto simp: AffineGroup_classcall_def split: normalized.splits)

lemma cache_inv_lookup:
  "cache_inv st \<Longrightarrow> r < length (instances st) \<Longrightarrow>
   cache st (key_of (instances st ! r)) = Some r"
  by (simp add: cache_inv_def)


lemma calls_inv: "calls st st' \<Longrightarrow> cache_inv st \<Longrightarrow> cache_inv st'"
  by (induction rule: calls.induct) (auto intro: AffineGroup_classcall_inv)

lemma calls_mono: "calls st st' \<Longrightarrow> cache_inv st \<Longrightarrow> cache st k = Some r \<Longrightarrow> cache st' k = Some r"
  by (induction rule: calls.induct) (auto intro: AffineGroup_classcall_mono calls_inv)

lemma reachable_inv: "reachable st \<Longrightarrow> cache_inv st"
  unfolding reachable_def using calls_inv cache_inv_start by blast

lemma classcall_Params_result:
  assumes "cache_inv st" and "normalize_args args kwds = Params dg rg"
    and "AffineGroup_classcall args kwds st = (Inr g, st')"
  shows "\<exists>r. g = GroupRef r \<and> cache st' (dg, rg) = Some r"
  using assms
  by (auto simp: AffineGroup_classcall_def UniqueRepresentation_classcall_def
      split: option.splits sum.splits)


lemma normalize_args_forms:
  "normalize_args [Obj (Some n) m (Some Rv)] kwds = Params n Rv"
  "normalize_args [Obj None (Some n) (Some Rv)] kwds = Params n Rv"
  "normalize_args [dg, Ring R] kwds = Params dg (Ring R)"
  "is_prime_power q \<Longrightarrow>
     normalize_args [dg, Integer q] kwds
       = Params dg (Ring (GF (nat q) (case kwds ''var'' of None \<Rightarrow> ''a'' | Some v \<Rightarrow> v)))"
  by (simp_all add: normalize_args_def dimension_relative_def dimension_def base_ring_of_def
      is_Integer_def FiniteField_def)

text \<open>C2: two calls whose arguments normalize to the same pair \<open>(degree, ring)\<close> return
  the same instance, whatever calls come between them, and no state of the process
  holds two instances with the same degree and ring. An affine space, a vector space
  and the pair of the degree and the ring normalize to the same pair, and a prime
  power normalizes to the finite field of that order with the generator name \<open>a\<close>.\<close>

theorem unique_instance:
  assumes "reachable st"
    and "normalize_args args1 kwds1 = Params dg rg"
    and "normalize_args args2 kwds2 = Params dg rg"
    and "AffineGroup_classcall args1 kwds1 st = (Inr g1, st1)"
    and "calls st1 st2"
    and "AffineGroup_classcall args2 kwds2 st2 = (Inr g2, st3)"
  shows "g1 = g2 \<and>
         (\<forall>r1 r2. r1 < length (instances st3) \<and> r2 < length (instances st3) \<and>
            degree (instances st3 ! r1) = degree (instances st3 ! r2) \<and>
            base_ring (instances st3 ! r1) = base_ring (instances st3 ! r2) \<longrightarrow> r1 = r2) \<and>
         normalize_args [Obj (Some n) m (Some (Ring R))] kwds = Params n (Ring R) \<and>
         normalize_args [Obj None (Some n) (Some (Ring R))] kwds = Params n (Ring R) \<and>
         normalize_args [n, Ring R] kwds = Params n (Ring R) \<and>
         (is_prime_power q \<longrightarrow>
            normalize_args [n, Integer q] Map.empty = Params n (Ring (GF (nat q) ''a'')))"
proof -
  have i0: "cache_inv st"
    using assms(1) by (rule reachable_inv)
  have i1: "cache_inv st1"
    using i0 assms(4) by (rule AffineGroup_classcall_inv)
  have i2: "cache_inv st2"
    using assms(5) i1 by (rule calls_inv)
  have i3: "cache_inv st3"
    using i2 assms(6) by (rule AffineGroup_classcall_inv)
  from classcall_Params_result[OF i0 assms(2,4)] obtain r where
    r: "g1 = GroupRef r" "cache st1 (dg, rg) = Some r"
    by blast
  have c2: "cache st2 (dg, rg) = Some r"
    using assms(5) i1 r(2) by (rule calls_mono)
  have "AffineGroup_classcall args2 kwds2 st2 = (Inr (GroupRef r), st2)"
    unfolding AffineGroup_classcall_def assms(3)
    by (simp add: UniqueRepresentation_classcall_def c2)
  then have g2: "g2 = GroupRef r"
    using assms(6) by simp
  have uniq: "r1 = r2"
    if "r1 < length (instances st3)" "r2 < length (instances st3)"
      "degree (instances st3 ! r1) = degree (instances st3 ! r2)"
      "base_ring (instances st3 ! r1) = base_ring (instances st3 ! r2)" for r1 r2
  proof -
    have k: "key_of (instances st3 ! r1) = key_of (instances st3 ! r2)"
      using that(3,4) by (simp add: key_of_def)
    have "cache st3 (key_of (instances st3 ! r1)) = Some r1"
      using i3 that(1) by (rule cache_inv_lookup)
    moreover have "cache st3 (key_of (instances st3 ! r2)) = Some r2"
      using i3 that(2) by (rule cache_inv_lookup)
    ultimately show ?thesis
      unfolding k by simp
  qed
  show ?thesis
  proof (intro conjI allI impI)
    show "g1 = g2"
      by (simp add: r(1) g2)
  next
    fix r1 r2
    assume "r1 < length (instances st3) \<and> r2 < length (instances st3) \<and>
            degree (instances st3 ! r1) = degree (instances st3 ! r2) \<and>
            base_ring (instances st3 ! r1) = base_ring (instances st3 ! r2)"
    then show "r1 = r2"
      using uniq by blast
  qed (simp_all add: normalize_args_forms)
qed

lemma is_prime_power_examples: "is_prime_power 4" "\<not> is_prime_power 6"
  by code_simp code_simp

theorem unique_instance_witness:
  "fst (AffineGroup_classcall [Integer 2, Integer 4] Map.empty
         (snd (AffineGroup_classcall
                 [Obj (Some (Integer 2)) (Some (Integer 2)) (Some (Ring (GF 4 ''a'')))]
                 Map.empty start)))
   = fst (AffineGroup_classcall
            [Obj (Some (Integer 2)) (Some (Integer 2)) (Some (Ring (GF 4 ''a'')))]
            Map.empty start)"
proof -
  let ?A = "Obj (Some (Integer 2)) (Some (Integer 2)) (Some (Ring (GF 4 ''a'')))"
  have n1: "normalize_args [?A] Map.empty = Params (Integer 2) (Ring (GF 4 ''a''))"
    by (rule normalize_args_forms(1))
  have n2: "normalize_args [Integer 2, Integer 4] Map.empty = Params (Integer 2) (Ring (GF 4 ''a''))"
    using normalize_args_forms(4)[OF is_prime_power_examples(1), of "Integer 2" Map.empty]
    by simp
  have r: "reachable start"
    by (simp add: reachable_def calls_refl)
  obtain g1 st1 where c1: "AffineGroup_classcall [?A] Map.empty start = (Inr g1, st1)"
    by (simp add: AffineGroup_classcall_def n1 UniqueRepresentation_classcall_def start_def
        AffineGroup_init_def Group_init_def)
  obtain g2 st3 where c2: "AffineGroup_classcall [Integer 2, Integer 4] Map.empty st1 = (Inr g2, st3)"
    using c1
    by (auto simp: AffineGroup_classcall_def n1 n2 UniqueRepresentation_classcall_def start_def
        AffineGroup_init_def Group_init_def)
  show ?thesis
    using unique_instance[OF r n1 n2 c1 calls_refl c2] c1 c2 by simp
qed




end
